theory Spec2Isabelle
  imports Complex_Main
begin

section \<open>The Metropolis-Hastings walker \<open>mhMCMC\<close> of MCMCfitting.ipynb\<close>

text \<open>
  The notebook defines one function with algorithmic content,
  \<^verbatim>\<open>mhMCMC(xi, yi, err, chi2func, initparams, stepsize, nsteps)\<close>.
  This theory embeds it and proves properties of the chain it returns.

  Conventions of the embedding.
  \<^item> A parameter vector (a numpy array of floats) is a \<open>real list\<close>; \<open>p + dp\<close> is the
    elementwise sum \<open>vadd\<close>. Finite binary64 values are idealised as reals: rounding
    to the nearest float is not modelled, so a sum is exact. Leaving the binary64 range is
    modelled where the walker can meet it: \<open>math.exp\<close> raises on overflow and returns
    \<open>0.0\<close> on underflow.
  \<^item> The value of \<open>chi2func\<close> is a Python float that may be infinite or not a number; it
    is a \<open>pyfloat\<close>, with the comparison, subtraction, halving and \<open>math.exp\<close> of
    IEEE-754 written out on the special values.
  \<^item> \<open>np.random\<close> is global mutable state. It is made explicit: a generator state \<open>'g\<close>
    is threaded through the run, and the two sampling functions the code calls
    (\<open>np.random.normal\<close>, \<open>np.random.uniform\<close>) are the fields of an \<open>'g rng\<close> given
    as a parameter. The run returns the chain together with the final generator state.
  \<^item> Every exception the body can raise is a value of \<open>error\<close>: \<open>stepsize[j]\<close> out of
    range is \<open>IndexError\<close>, \<open>math.exp\<close> of a too large argument is \<open>OverflowError\<close>.
  \<^item> \<open>nsteps\<close> is a Python integer, an \<open>int\<close>; \<open>range(0, nsteps)\<close> is empty when it is
    not positive, so the loop runs \<open>nat nsteps\<close> times.
\<close>

subsection \<open>Floats with special values\<close>

datatype error = IndexError | OverflowError

datatype pyfloat = Fin real | PInf | NInf | NaN

text \<open>Python \<open>a < b\<close> on floats: false whenever an operand is not a number.\<close>

fun fl_less :: "pyfloat \<Rightarrow> pyfloat \<Rightarrow> bool" where
  "fl_less (Fin a) (Fin b) = (a < b)"
| "fl_less (Fin a) PInf = True"
| "fl_less (Fin a) NInf = False"
| "fl_less NInf (Fin b) = True"
| "fl_less NInf PInf = True"
| "fl_less NInf NInf = False"
| "fl_less PInf (Fin b) = False"
| "fl_less PInf PInf = False"
| "fl_less PInf NInf = False"
| "fl_less NaN b = False"
| "fl_less a NaN = False"

text \<open>Python \<open>a - b\<close> on floats: \<open>inf - inf\<close> is not a number.\<close>

fun fl_sub :: "pyfloat \<Rightarrow> pyfloat \<Rightarrow> pyfloat" where
  "fl_sub (Fin a) (Fin b) = Fin (a - b)"
| "fl_sub (Fin a) PInf = NInf"
| "fl_sub (Fin a) NInf = PInf"
| "fl_sub PInf (Fin b) = PInf"
| "fl_sub PInf NInf = PInf"
| "fl_sub PInf PInf = NaN"
| "fl_sub NInf (Fin b) = NInf"
| "fl_sub NInf PInf = NInf"
| "fl_sub NInf NInf = NaN"
| "fl_sub NaN b = NaN"
| "fl_sub a NaN = NaN"

text \<open>Python \<open>a / 2.\<close> on floats.\<close>

fun fl_div2 :: "pyfloat \<Rightarrow> pyfloat" where
  "fl_div2 (Fin a) = Fin (a / 2)"
| "fl_div2 PInf = PInf"
| "fl_div2 NInf = NInf"
| "fl_div2 NaN = NaN"

text \<open>
  \<open>math.exp\<close> (the code reaches it as \<open>np.math.exp\<close>): \<open>exp(-inf)\<close> is \<open>0.0\<close>,
  \<open>exp(inf)\<close> is \<open>inf\<close>, \<open>exp(nan)\<close> is \<open>nan\<close>. On a finite argument it raises
  \<open>OverflowError\<close> when the exponential exceeds the binary64 range, and returns \<open>0.0\<close>
  when the exponential is at most half the least positive binary64 number \<open>2 ** -1074\<close>
  (for instance \<open>math.exp(-5000.0) == 0.0\<close>).
\<close>

definition dbl_overflow :: real where
  "dbl_overflow = 2 ^ 1024"

definition dbl_underflow :: real where
  "dbl_underflow = 1 / 2 ^ 1075"

fun math_exp :: "pyfloat \<Rightarrow> error + pyfloat" where
  "math_exp (Fin a) =
     (if dbl_overflow \<le> exp a then Inl OverflowError
      else if exp a \<le> dbl_underflow then Inr (Fin 0)
      else Inr (Fin (exp a)))"
| "math_exp PInf = Inr PInf"
| "math_exp NInf = Inr (Fin 0)"
| "math_exp NaN = Inr NaN"

subsection \<open>The random-number source\<close>

text \<open>
  \<open>normal R scale g\<close> is \<open>np.random.normal(scale=scale)\<close> and \<open>uniform R low high g\<close> is
  \<open>np.random.uniform(low, high)\<close>, each from generator state \<open>g\<close>: the sample and the
  next state.
\<close>

record 'g rng =
  normal :: "real \<Rightarrow> 'g \<Rightarrow> real \<times> 'g"
  uniform :: "real \<Rightarrow> real \<Rightarrow> 'g \<Rightarrow> real \<times> 'g"

subsection \<open>The walker\<close>

text \<open>\<open>p + dp\<close> on arrays of the same length.\<close>

definition vadd :: "real list \<Rightarrow> real list \<Rightarrow> real list" where
  "vadd p dp = map2 (+) p dp"

text \<open>
  The inner loop
  \<^verbatim>\<open>for j in range(0,len(p)):
    if stepsize[j] > 0: dp[j] = np.random.normal(scale=stepsize[j])\<close>
  over the remaining indices \<open>js\<close>, from the offsets \<open>dp\<close> written so far.
\<close>

fun draw_dp_loop ::
  "'g rng \<Rightarrow> real list \<Rightarrow> nat list \<Rightarrow> real list \<Rightarrow> 'g \<Rightarrow> error + (real list \<times> 'g)" where
  "draw_dp_loop R stepsize [] dp g = Inr (dp, g)"
| "draw_dp_loop R stepsize (j # js) dp g =
     (if length stepsize \<le> j then Inl IndexError
      else if stepsize ! j > 0 then
        (case normal R (stepsize ! j) g of
           (z, g') \<Rightarrow> draw_dp_loop R stepsize js (dp[j := z]) g')
      else draw_dp_loop R stepsize js dp g)"

text \<open>\<open>dp = np.zeros(len(p))\<close> followed by the inner loop.\<close>

definition draw_dp :: "'g rng \<Rightarrow> real list \<Rightarrow> real list \<Rightarrow> 'g \<Rightarrow> error + (real list \<times> 'g)" where
  "draw_dp R stepsize p g =
     draw_dp_loop R stepsize [0..<length p] (replicate (length p) 0) g"

text \<open>
  One pass of the body of the outer loop, up to the new value of \<open>p\<close>: the draw of
  \<open>dp\<close>, the comparison of the two costs, and the likelihood-ratio test.
\<close>

definition mh_step ::
  "'g rng \<Rightarrow> 'x \<Rightarrow> 'y \<Rightarrow> 'e \<Rightarrow> (real list \<Rightarrow> 'x \<Rightarrow> 'y \<Rightarrow> 'e \<Rightarrow> pyfloat) \<Rightarrow> real list
     \<Rightarrow> real list \<Rightarrow> 'g \<Rightarrow> error + (real list \<times> 'g)" where
  "mh_step R xi yi err chi2func stepsize p g =
     (case draw_dp R stepsize p g of
        Inl e \<Rightarrow> Inl e
      | Inr (dp, g1) \<Rightarrow>
          if fl_less (chi2func (vadd p dp) xi yi err) (chi2func p xi yi err)
          then Inr (vadd p dp, g1)
          else
            (case math_exp (fl_div2 (fl_sub (chi2func p xi yi err)
                                            (chi2func (vadd p dp) xi yi err))) of
               Inl e \<Rightarrow> Inl e
             | Inr r \<Rightarrow>
                 (case uniform R 0 1 g1 of
                    (u, g2) \<Rightarrow>
                      if fl_less (Fin u) r then Inr (vadd p dp, g2) else Inr (p, g2))))"

text \<open>
  The outer loop \<^verbatim>\<open>for i in range(0,nsteps)\<close> with \<open>n\<close> passes left, from the
  current point \<open>p\<close>, the list \<open>plist\<close> built so far and the generator state \<open>g\<close>.
\<close>

fun mh_loop ::
  "'g rng \<Rightarrow> 'x \<Rightarrow> 'y \<Rightarrow> 'e \<Rightarrow> (real list \<Rightarrow> 'x \<Rightarrow> 'y \<Rightarrow> 'e \<Rightarrow> pyfloat) \<Rightarrow> real list
     \<Rightarrow> nat \<Rightarrow> real list \<Rightarrow> real list list \<Rightarrow> 'g \<Rightarrow> error + (real list list \<times> 'g)" where
  "mh_loop R xi yi err chi2func stepsize 0 p plist g = Inr (plist, g)"
| "mh_loop R xi yi err chi2func stepsize (Suc n) p plist g =
     (case mh_step R xi yi err chi2func stepsize p g of
        Inl e \<Rightarrow> Inl e
      | Inr (p', g') \<Rightarrow> mh_loop R xi yi err chi2func stepsize n p' (plist @ [p']) g')"

text \<open>\<open>p = initparams; plist = [p]\<close>, the loop, and \<open>return np.array(plist)\<close>.\<close>

definition mhMCMC ::
  "'g rng \<Rightarrow> 'x \<Rightarrow> 'y \<Rightarrow> 'e \<Rightarrow> (real list \<Rightarrow> 'x \<Rightarrow> 'y \<Rightarrow> 'e \<Rightarrow> pyfloat) \<Rightarrow> real list
     \<Rightarrow> real list \<Rightarrow> int \<Rightarrow> 'g \<Rightarrow> error + (real list list \<times> 'g)" where
  "mhMCMC R xi yi err chi2func initparams stepsize nsteps g =
     mh_loop R xi yi err chi2func stepsize (nat nsteps) initparams [initparams] g"

subsection \<open>A small generator for running the walker on concrete inputs\<close>

text \<open>
  A counter whose normal draws cycle through \<open>-scale, 0, scale\<close> and whose uniform draws
  cycle through \<open>low + (high - low) * k / 4\<close> for \<open>k = 0, 1, 2, 3\<close>, so that a uniform
  draw from \<open>[0, 1)\<close> lies in \<open>[0, 1)\<close>.
\<close>

definition cycle_rng :: "nat rng" where
  "cycle_rng =
     \<lparr> normal = (\<lambda>scale g. (scale * (real (g mod 3) - 1), Suc g)),
       uniform = (\<lambda>low high g. (low + (high - low) * (real (g mod 4) / 4), Suc g)) \<rparr>"

text \<open>The cost \<open>p[0]**2\<close>; the data are not used.\<close>

definition sq_cost :: "real list \<Rightarrow> unit \<Rightarrow> unit \<Rightarrow> unit \<Rightarrow> pyfloat" where
  "sq_cost p x y e = Fin ((p ! 0) ^ 2)"

text \<open>Two more costs for concrete runs: one that forbids every point but \<open>p0\<close>, and a
  constant one.\<close>

definition only_at :: "real list \<Rightarrow> real list \<Rightarrow> unit \<Rightarrow> unit \<Rightarrow> unit \<Rightarrow> pyfloat" where
  "only_at p0 p x y e = (if p = p0 then Fin 0 else PInf)"

definition flat_cost :: "real list \<Rightarrow> unit \<Rightarrow> unit \<Rightarrow> unit \<Rightarrow> pyfloat" where
  "flat_cost p x y e = Fin 7"

subsection \<open>Auxiliary facts: floats, the draw of \<open>dp\<close>, one step, the loop\<close>

lemma exp_nonpos_no_overflow: "a \<le> 0 \<Longrightarrow> \<not> dbl_overflow \<le> exp (a::real)"
proof -
  assume "a \<le> 0"
  then have "exp a \<le> 1" by simp
  moreover have "(1::real) < dbl_overflow" by (simp add: dbl_overflow_def)
  ultimately show ?thesis by linarith
qed

lemma dbl_overflow_gt_one: "\<not> dbl_overflow \<le> 1"
  by (simp add: dbl_overflow_def)

lemma dbl_underflow_lt_one: "\<not> 1 \<le> dbl_underflow"
  by (simp add: dbl_underflow_def)

lemma exp_unit_no_underflow: "- 1 \<le> a \<Longrightarrow> \<not> exp (a::real) \<le> dbl_underflow"
proof -
  assume a: "- 1 \<le> a"
  have "exp (1::real) \<le> 3" by (rule exp_le)
  then have "1 / 3 \<le> 1 / exp (1::real)" by (simp add: field_simps)
  also have "1 / exp (1::real) = exp (- 1)" by (simp add: exp_minus field_simps)
  also have "exp (- 1) \<le> exp a" using a by simp
  finally have "1 / 3 \<le> exp a" .
  moreover have "dbl_underflow < 1 / 3" by (simp add: dbl_underflow_def)
  ultimately show ?thesis by linarith
qed

lemma exp_far_negative_underflow: "a \<le> - 1075 \<Longrightarrow> exp (a::real) \<le> dbl_underflow"
proof -
  assume a: "a \<le> - 1075"
  have "(2::real) \<le> exp 1" using exp_ge_add_one_self[of "1::real"] by simp
  then have "(2::real) ^ 1075 \<le> exp 1 ^ 1075" by (intro power_mono) simp_all
  also have "exp (1::real) ^ 1075 = exp (of_nat 1075 * 1)" by (rule exp_of_nat_mult[symmetric])
  finally have p: "(2::real) ^ 1075 \<le> exp 1075" by simp
  have "exp a \<le> exp (- 1075)" using a by simp
  also have "exp (- 1075 :: real) = 1 / exp 1075" by (simp add: exp_minus field_simps)
  also have "1 / exp (1075::real) \<le> 1 / 2 ^ 1075" using p by (intro divide_left_mono) simp_all
  finally show ?thesis by (simp add: dbl_underflow_def)
qed

lemma math_exp_else_branch:
  "\<not> fl_less c' c \<Longrightarrow> \<exists>r. math_exp (fl_div2 (fl_sub c c')) = Inr r"
  by (cases c; cases c') (simp_all add: exp_nonpos_no_overflow)

lemma draw_dp_loop_ok:
  "\<forall>j\<in>set js. j < length stepsize \<Longrightarrow>
   \<exists>dp' g'. draw_dp_loop R stepsize js dp g = Inr (dp', g') \<and> length dp' = length dp \<and>
     (\<forall>i. i \<notin> set js \<or> stepsize ! i \<le> 0 \<longrightarrow> dp' ! i = dp ! i)"
proof (induction js arbitrary: dp g)
  case Nil
  then show ?case by simp
next
  case (Cons j js)
  show ?case
  proof (cases "stepsize ! j > 0")
    case True
    obtain z g1 where n: "normal R (stepsize ! j) g = (z, g1)" by (cases "normal R (stepsize ! j) g")
    from Cons.IH[of "dp[j := z]" g1] Cons.prems
    obtain dp' g' where "draw_dp_loop R stepsize js (dp[j := z]) g1 = Inr (dp', g')"
       "length dp' = length dp" "\<forall>i. i \<notin> set js \<or> stepsize ! i \<le> 0 \<longrightarrow> dp' ! i = dp[j := z] ! i"
      by auto
    moreover have "\<And>i. stepsize ! i \<le> 0 \<Longrightarrow> j \<noteq> i" using True by auto
    ultimately show ?thesis using True n Cons.prems by auto
  next
    case False
    with Cons.IH[of dp g] Cons.prems show ?thesis by auto
  qed
qed

lemma draw_dp_ok:
  assumes "length p \<le> length stepsize"
  shows "\<exists>dp g1. draw_dp R stepsize p g = Inr (dp, g1) \<and> length dp = length p \<and>
     (\<forall>i<length p. stepsize ! i \<le> 0 \<longrightarrow> dp ! i = 0)"
proof -
  have "\<forall>j\<in>set [0..<length p]. j < length stepsize" using assms by auto
  from draw_dp_loop_ok[OF this, of R "replicate (length p) 0" g]
  show ?thesis unfolding draw_dp_def by auto
qed

lemma draw_dp_pinned:
  assumes "draw_dp R stepsize p g = Inr (dp, g1)" and "length p \<le> length stepsize"
    and "i < length p" and "stepsize ! i \<le> 0"
  shows "dp ! i = 0"
proof -
  from draw_dp_ok[OF assms(2), of R g] obtain dp' g' where
    d: "draw_dp R stepsize p g = Inr (dp', g')"
       "\<forall>i<length p. stepsize ! i \<le> 0 \<longrightarrow> dp' ! i = 0" by blast
  from d(1) assms(1) have "dp' = dp" by simp
  with d(2) assms(3,4) show ?thesis by blast
qed

lemma draw_dp_loop_IndexError:
  "\<exists>j\<in>set js. length stepsize \<le> j \<Longrightarrow> draw_dp_loop R stepsize js dp g = Inl IndexError"
  by (induction js arbitrary: dp g) (auto split: prod.splits)

lemma draw_dp_IndexError:
  "length stepsize < length p \<Longrightarrow> draw_dp R stepsize p g = Inl IndexError"
  unfolding draw_dp_def by (rule draw_dp_loop_IndexError) (auto intro: bexI[of _ "length stepsize"])

lemma vadd_length: "length dp = length p \<Longrightarrow> length (vadd p dp) = length p"
  by (simp add: vadd_def)

lemma vadd_nth: "length dp = length p \<Longrightarrow> i < length p \<Longrightarrow> vadd p dp ! i = p ! i + dp ! i"
  by (simp add: vadd_def)

lemma mh_step_ok:
  assumes "length p \<le> length stepsize"
  shows "\<exists>dp g1 p' g'. draw_dp R stepsize p g = Inr (dp, g1) \<and> length dp = length p \<and>
     (\<forall>i<length p. stepsize ! i \<le> 0 \<longrightarrow> dp ! i = 0) \<and>
     mh_step R xi yi err chi2func stepsize p g = Inr (p', g') \<and> (p' = p \<or> p' = vadd p dp)"
proof -
  from draw_dp_ok[OF assms, of R g] obtain dp g1 where
    d: "draw_dp R stepsize p g = Inr (dp, g1)" "length dp = length p"
       "\<forall>i<length p. stepsize ! i \<le> 0 \<longrightarrow> dp ! i = 0" by blast
  show ?thesis
  proof (cases "fl_less (chi2func (vadd p dp) xi yi err) (chi2func p xi yi err)")
    case True
    with d show ?thesis by (simp add: mh_step_def)
  next
    case False
    from math_exp_else_branch[OF False] obtain r where
      r: "math_exp (fl_div2 (fl_sub (chi2func p xi yi err) (chi2func (vadd p dp) xi yi err))) = Inr r"
      by blast
    obtain u g2 where u: "uniform R 0 1 g1 = (u, g2)" by (cases "uniform R 0 1 g1")
    from d False r u show ?thesis by (simp add: mh_step_def)
  qed
qed

lemma mh_step_length:
  assumes "length p = n" "n \<le> length stepsize"
  shows "\<exists>p' g'. mh_step R xi yi err chi2func stepsize p g = Inr (p', g') \<and> length p' = n"
proof -
  from assms have "length p \<le> length stepsize" by simp
  from mh_step_ok[OF this, of R g xi yi err chi2func] assms show ?thesis
    by (auto simp: vadd_length)
qed


lemma mh_step_ratio_test:
  assumes "draw_dp R stepsize p g = Inr (dp, g1)"
    and "\<not> fl_less (chi2func (vadd p dp) xi yi err) (chi2func p xi yi err)"
    and "math_exp (fl_div2 (fl_sub (chi2func p xi yi err) (chi2func (vadd p dp) xi yi err))) = Inr r"
    and "uniform R 0 1 g1 = (u, g2)"
  shows "mh_step R xi yi err chi2func stepsize p g =
           Inr (if fl_less (Fin u) r then vadd p dp else p, g2)"
  using assms by (simp add: mh_step_def)

lemma mh_step_reject_PInf:
  assumes draw: "draw_dp R stepsize p g = Inr (dp, g1)"
    and inf: "chi2func (vadd p dp) xi yi err = PInf"
    and cur: "chi2func p xi yi err \<noteq> PInf"
    and u: "0 \<le> fst (uniform R 0 1 g1)"
  shows "mh_step R xi yi err chi2func stepsize p g = Inr (p, snd (uniform R 0 1 g1))"
proof -
  obtain v g2 where v: "uniform R 0 1 g1 = (v, g2)" by (cases "uniform R 0 1 g1")
  with u have "0 \<le> v" by simp
  with draw inf cur v show ?thesis
    by (cases "chi2func p xi yi err") (simp_all add: mh_step_def)
qed

lemma mh_step_keeps_finite:
  assumes len: "length p \<le> length stepsize"
    and cur: "chi2func p xi yi err \<noteq> PInf"
    and u: "\<forall>g. 0 \<le> fst (uniform R 0 1 g)"
  shows "\<exists>p' g'. mh_step R xi yi err chi2func stepsize p g = Inr (p', g')
           \<and> length p' = length p \<and> chi2func p' xi yi err \<noteq> PInf"
proof -
  from mh_step_ok[OF len, of R g xi yi err chi2func] obtain dp g1 p' g' where
    d: "draw_dp R stepsize p g = Inr (dp, g1)" "length dp = length p"
       "mh_step R xi yi err chi2func stepsize p g = Inr (p', g')" "p' = p \<or> p' = vadd p dp"
    by blast
  show ?thesis
  proof (cases "chi2func (vadd p dp) xi yi err = PInf")
    case True
    from u have "0 \<le> fst (uniform R 0 1 g1)" by blast
    from mh_step_reject_PInf[where chi2func = chi2func and xi = xi and yi = yi and err = err,
        OF d(1) True cur this] cur
    show ?thesis by simp
  next
    case False
    with d cur show ?thesis by (auto simp: vadd_length)
  qed
qed

lemma mh_step_pinned:
  assumes len: "length p \<le> length stepsize" and i: "i < length p" and s: "stepsize ! i \<le> 0"
  shows "\<exists>p' g'. mh_step R xi yi err chi2func stepsize p g = Inr (p', g')
           \<and> length p' = length p \<and> p' ! i = p ! i"
proof -
  from mh_step_ok[OF len, of R g xi yi err chi2func] obtain dp g1 p' g' where
    d: "draw_dp R stepsize p g = Inr (dp, g1)" "length dp = length p"
       "\<forall>i<length p. stepsize ! i \<le> 0 \<longrightarrow> dp ! i = 0"
       "mh_step R xi yi err chi2func stepsize p g = Inr (p', g')" "p' = p \<or> p' = vadd p dp"
    by blast
  from d(3) i s have "dp ! i = 0" by simp
  with d(2,4,5) i show ?thesis by (auto simp: vadd_length vadd_nth)
qed

lemma mh_step_stays_at_only_point:
  assumes len: "length p0 \<le> length stepsize"
    and forb: "\<forall>q. q \<noteq> p0 \<longrightarrow> chi2func q xi yi err = PInf"
    and fin: "chi2func p0 xi yi err = Fin c"
    and u: "\<forall>g. 0 \<le> fst (uniform R 0 1 g)"
  shows "\<exists>p' g'. mh_step R xi yi err chi2func stepsize p0 g = Inr (p', g') \<and> p' = p0"
proof -
  from mh_step_ok[OF len, of R g xi yi err chi2func] obtain dp g1 p' g' where
    d: "draw_dp R stepsize p0 g = Inr (dp, g1)"
       "mh_step R xi yi err chi2func stepsize p0 g = Inr (p', g')" "p' = p0 \<or> p' = vadd p0 dp"
    by blast
  show ?thesis
  proof (cases "vadd p0 dp = p0")
    case True
    with d show ?thesis by auto
  next
    case False
    with forb have i: "chi2func (vadd p0 dp) xi yi err = PInf" by blast
    from fin have f: "chi2func p0 xi yi err \<noteq> PInf" by simp
    from u have "0 \<le> fst (uniform R 0 1 g1)" by blast
    from mh_step_reject_PInf[where chi2func = chi2func and xi = xi and yi = yi and err = err,
        OF d(1) i f this]
    show ?thesis by simp
  qed
qed

lemma mh_loop_invariant:
  assumes step: "\<And>p g. I p \<Longrightarrow> \<exists>p' g'. mh_step R xi yi err chi2func stepsize p g = Inr (p', g') \<and> I p'"
  shows "I p \<Longrightarrow> \<exists>chain g'. mh_loop R xi yi err chi2func stepsize n p plist g = Inr (plist @ chain, g')
            \<and> length chain = n \<and> (\<forall>q\<in>set chain. I q)"
proof (induction n arbitrary: p plist g)
  case 0
  then show ?case by simp
next
  case (Suc n)
  from step[OF Suc.prems, of g] obtain p' g1 where
    s: "mh_step R xi yi err chi2func stepsize p g = Inr (p', g1)" "I p'" by blast
  from Suc.IH[OF s(2), of "plist @ [p']" g1] obtain chain g' where
    c: "mh_loop R xi yi err chi2func stepsize n p' (plist @ [p']) g1 = Inr ((plist @ [p']) @ chain, g')"
       "length chain = n" "\<forall>q\<in>set chain. I q" by blast
  have "mh_loop R xi yi err chi2func stepsize (Suc n) p plist g = Inr (plist @ (p' # chain), g')"
    using s c by simp
  moreover have "length (p' # chain) = Suc n" using c by simp
  moreover have "\<forall>q\<in>set (p' # chain). I q" using s c by simp
  ultimately show ?case by blast
qed

lemma mhMCMC_invariant:
  assumes step: "\<And>p g. I p \<Longrightarrow> \<exists>p' g'. mh_step R xi yi err chi2func stepsize p g = Inr (p', g') \<and> I p'"
    and init: "I initparams"
  shows "\<exists>chain g'. mhMCMC R xi yi err chi2func initparams stepsize nsteps g = Inr (chain, g')
            \<and> length chain = nat nsteps + 1 \<and> chain ! 0 = initparams \<and> (\<forall>q\<in>set chain. I q)"
proof -
  from mh_loop_invariant[where I = I, OF step init, of "nat nsteps" "[initparams]" g]
  obtain chain g' where
    c: "mh_loop R xi yi err chi2func stepsize (nat nsteps) initparams [initparams] g = Inr ([initparams] @ chain, g')"
       "length chain = nat nsteps" "\<forall>q\<in>set chain. I q" by blast
  then show ?thesis using init by (simp add: mhMCMC_def)
qed

lemma mhMCMC_pinned:
  assumes len: "length initparams \<le> length stepsize" and i: "i < length initparams"
    and s: "stepsize ! i \<le> 0"
  shows "\<exists>chain g'. mhMCMC R xi yi err chi2func initparams stepsize nsteps g = Inr (chain, g')
           \<and> length chain = nat nsteps + 1 \<and> (\<forall>q\<in>set chain. q ! i = initparams ! i)"
proof -
  let ?I = "\<lambda>p. length p = length initparams \<and> p ! i = initparams ! i"
  have step: "\<And>p g. ?I p \<Longrightarrow>
      \<exists>p' g'. mh_step R xi yi err chi2func stepsize p g = Inr (p', g') \<and> ?I p'"
  proof -
    fix p g assume a: "?I p"
    with len i have "length p \<le> length stepsize" "i < length p" by simp_all
    from mh_step_pinned[OF this s, of R xi yi err chi2func g] a
    show "\<exists>p' g'. mh_step R xi yi err chi2func stepsize p g = Inr (p', g') \<and> ?I p'" by auto
  qed
  have init: "?I initparams" by simp
  from mhMCMC_invariant[where I = ?I, OF step init, of nsteps g] show ?thesis by auto
qed

lemma mhMCMC_no_steps:
  "nsteps \<le> 0 \<Longrightarrow> mhMCMC R xi yi err chi2func initparams stepsize nsteps g = Inr ([initparams], g)"
  by (simp add: mhMCMC_def)

lemma mhMCMC_IndexError:
  assumes "length stepsize < length initparams" and "1 \<le> nsteps"
  shows "mhMCMC R xi yi err chi2func initparams stepsize nsteps g = Inl IndexError"
proof -
  from assms(2) obtain n where n: "nat nsteps = Suc n" by (cases "nat nsteps") auto
  from draw_dp_IndexError[OF assms(1), of R g]
  have "mh_step R xi yi err chi2func stepsize initparams g = Inl IndexError"
    by (simp add: mh_step_def)
  with n show ?thesis by (simp add: mhMCMC_def)
qed

lemma draw_dp_loop_clip:
  assumes "stepsize ! i \<le> 0"
  shows "draw_dp_loop R (stepsize[i := 0]) js dp g = draw_dp_loop R stepsize js dp g"
proof (induction js arbitrary: dp g)
  case Nil
  show ?case by simp
next
  case (Cons j js)
  show ?case
  proof (cases "j = i")
    case True
    with assms Cons.IH show ?thesis by (simp add: nth_list_update)
  next
    case False
    with Cons.IH show ?thesis by (simp split: prod.splits)
  qed
qed

lemma mh_step_clip:
  "stepsize ! i \<le> 0 \<Longrightarrow>
     mh_step R xi yi err chi2func (stepsize[i := 0]) p g = mh_step R xi yi err chi2func stepsize p g"
  by (simp add: mh_step_def draw_dp_def draw_dp_loop_clip)

lemma mh_loop_clip:
  "stepsize ! i \<le> 0 \<Longrightarrow>
     mh_loop R xi yi err chi2func (stepsize[i := 0]) n p plist g =
     mh_loop R xi yi err chi2func stepsize n p plist g"
  by (induction n arbitrary: p plist g) (simp_all add: mh_step_clip split: sum.splits prod.splits)

lemma mhMCMC_total:
  assumes l: "length initparams \<le> length stepsize"
  shows "\<exists>chain g'. mhMCMC R xi yi err chi2func initparams stepsize nsteps g = Inr (chain, g')
           \<and> length chain = nat nsteps + 1"
proof -
  let ?I = "\<lambda>p. length p = length initparams"
  have step: "\<And>p g. ?I p \<Longrightarrow>
      \<exists>p' g'. mh_step R xi yi err chi2func stepsize p g = Inr (p', g') \<and> ?I p'"
    using l by (intro mh_step_length) simp_all
  from mhMCMC_invariant[where I = ?I, OF step, of initparams nsteps g] show ?thesis by auto
qed

lemma mh_step_Inr_cases:
  assumes "mh_step R xi yi err chi2func stepsize p g = Inr (p', g')"
  shows "\<exists>dp g1. draw_dp R stepsize p g = Inr (dp, g1) \<and> (p' = p \<or> p' = vadd p dp)"
  using assms unfolding mh_step_def
  by (auto split: sum.splits prod.splits if_splits)

lemma mh_loop_extends:
  "mh_loop R xi yi err chi2func stepsize n p plist g = Inr (pl, g') \<Longrightarrow>
     \<exists>chain. pl = plist @ chain \<and> length chain = n"
proof (induction n arbitrary: p plist g)
  case 0
  then show ?case by simp
next
  case (Suc n)
  from Suc.prems obtain p1 h where
    s: "mh_step R xi yi err chi2func stepsize p g = Inr (p1, h)"
       "mh_loop R xi yi err chi2func stepsize n p1 (plist @ [p1]) h = Inr (pl, g')"
    by (auto split: sum.splits prod.splits)
  from Suc.IH[OF s(2)] obtain chain where "pl = (plist @ [p1]) @ chain" "length chain = n"
    by blast
  then have "pl = plist @ (p1 # chain) \<and> length (p1 # chain) = Suc n" by simp
  then show ?case by blast
qed

lemma mh_loop_successor:
  "mh_loop R xi yi err chi2func stepsize n p plist g = Inr (pl, g_end) \<Longrightarrow>
   plist \<noteq> [] \<Longrightarrow> last plist = p \<Longrightarrow> length plist \<le> k \<Longrightarrow> k < length plist + n \<Longrightarrow>
     \<exists>g' dp g1. mh_loop R xi yi err chi2func stepsize (k - length plist) p plist g
                    = Inr (take k pl, g')
        \<and> draw_dp R stepsize (pl ! (k - 1)) g' = Inr (dp, g1)
        \<and> (pl ! k = pl ! (k - 1) \<or> pl ! k = vadd (pl ! (k - 1)) dp)"
proof (induction n arbitrary: p plist g)
  case 0
  then show ?case by simp
next
  case (Suc n)
  from Suc.prems(1) obtain p1 h where
    s: "mh_step R xi yi err chi2func stepsize p g = Inr (p1, h)"
       "mh_loop R xi yi err chi2func stepsize n p1 (plist @ [p1]) h = Inr (pl, g_end)"
    by (auto split: sum.splits prod.splits)
  from mh_loop_extends[OF s(2)] obtain chain where
    pl: "pl = (plist @ [p1]) @ chain" by blast
  show ?case
  proof (cases "k = length plist")
    case True
    from mh_step_Inr_cases[OF s(1)] obtain dp g1 where
      d: "draw_dp R stepsize p g = Inr (dp, g1)" "p1 = p \<or> p1 = vadd p dp" by blast
    have prev: "pl ! (k - 1) = p"
      using True pl Suc.prems(2,3) by (simp add: nth_append last_conv_nth)
    have cur: "pl ! k = p1" using True pl by (simp add: nth_append)
    have tk: "take k pl = plist" using True pl by simp
    have "mh_loop R xi yi err chi2func stepsize (k - length plist) p plist g = Inr (take k pl, g)"
      using True tk by simp
    moreover have "draw_dp R stepsize (pl ! (k - 1)) g = Inr (dp, g1)" using d(1) prev by simp
    moreover have "pl ! k = pl ! (k - 1) \<or> pl ! k = vadd (pl ! (k - 1)) dp"
      using d(2) prev cur by simp
    ultimately show ?thesis by blast
  next
    case False
    with Suc.prems(4,5) have k: "length (plist @ [p1]) \<le> k" "k < length (plist @ [p1]) + n"
      by simp_all
    have ne: "plist @ [p1] \<noteq> []" "last (plist @ [p1]) = p1" by simp_all
    from Suc.IH[OF s(2) ne k] obtain g' dp g1 where
      r: "mh_loop R xi yi err chi2func stepsize (k - length (plist @ [p1])) p1 (plist @ [p1]) h
            = Inr (take k pl, g')"
         "draw_dp R stepsize (pl ! (k - 1)) g' = Inr (dp, g1)"
         "pl ! k = pl ! (k - 1) \<or> pl ! k = vadd (pl ! (k - 1)) dp" by blast
    from k have "k - length plist = Suc (k - length (plist @ [p1]))" by simp
    with s(1) r(1)
    have "mh_loop R xi yi err chi2func stepsize (k - length plist) p plist g = Inr (take k pl, g')"
      by simp
    with r(2,3) show ?thesis by blast
  qed
qed

subsection \<open>Runs on concrete inputs\<close>

lemma cycle_normal: "normal cycle_rng s g = (s * (real (g mod 3) - 1), Suc g)"
  by (simp add: cycle_rng_def)

lemma cycle_uniform: "uniform cycle_rng lo hi g = (lo + (hi - lo) * (real (g mod 4) / 4), Suc g)"
  by (simp add: cycle_rng_def)

lemma cycle_uniform_range:
  "0 \<le> fst (uniform cycle_rng 0 1 g) \<and> fst (uniform cycle_rng 0 1 g) < 1"
proof -
  have "g mod 4 < 4" by simp
  then have "real (g mod 4) < 4" by (metis of_nat_less_iff of_nat_numeral)
  then show ?thesis by (simp add: cycle_uniform)
qed

lemma cycle_uniform_nonneg: "\<forall>g. 0 \<le> fst (uniform cycle_rng 0 1 g)"
  using cycle_uniform_range by blast

lemma only_at_forbids: "\<forall>q. q \<noteq> p0 \<longrightarrow> only_at p0 q () () () = PInf"
  by (simp add: only_at_def)

lemma mh_loop_numeral:
  "mh_loop R xi yi err chi2func stepsize (numeral k) p plist g =
     (case mh_step R xi yi err chi2func stepsize p g of
        Inl e \<Rightarrow> Inl e
      | Inr (p', g') \<Rightarrow> mh_loop R xi yi err chi2func stepsize (pred_numeral k) p' (plist @ [p']) g')"
  by (simp add: numeral_eq_Suc)

lemma draw_dp_cycle_1: "draw_dp cycle_rng [1] [0] g = Inr ([real (g mod 3) - 1], Suc g)"
  by (simp add: draw_dp_def cycle_normal)

lemma example_run:
  "mhMCMC cycle_rng () () () sq_cost [0] [1] 2 3 = Inr ([[0], [-1], [0]], 6)"
  by (simp add: mhMCMC_def mh_step_def draw_dp_def cycle_normal cycle_uniform sq_cost_def vadd_def
      mh_loop_numeral exp_nonpos_no_overflow dbl_overflow_gt_one
      exp_unit_no_underflow dbl_underflow_lt_one)

lemma example_run_underflow:
  "mhMCMC cycle_rng () () () sq_cost [0] [100] 1 3 = Inr ([[0], [0]], 5)"
  by (simp add: mhMCMC_def mh_step_def draw_dp_def cycle_normal cycle_uniform sq_cost_def vadd_def
      exp_nonpos_no_overflow exp_far_negative_underflow)

lemma example_run_neg:
  "mhMCMC cycle_rng () () () sq_cost [0] [-1] 1 0 = Inr ([[0], [0]], 1)"
  by (simp add: mhMCMC_def mh_step_def draw_dp_def cycle_normal cycle_uniform sq_cost_def vadd_def
      exp_nonpos_no_overflow dbl_overflow_gt_one
      exp_unit_no_underflow dbl_underflow_lt_one)

lemma example_run_long:
  "mhMCMC cycle_rng () () () sq_cost [0] [1, 1] 1 3 = Inr ([[0], [-1]], 5)"
  by (simp add: mhMCMC_def mh_step_def draw_dp_def cycle_normal cycle_uniform sq_cost_def vadd_def
      exp_nonpos_no_overflow dbl_overflow_gt_one
      exp_unit_no_underflow dbl_underflow_lt_one)

lemma example_run_short:
  "mhMCMC cycle_rng () () () sq_cost [0, 0] [1] 1 2 = Inl IndexError"
  by (simp add: mhMCMC_def mh_step_def draw_dp_def cycle_normal cycle_uniform sq_cost_def vadd_def
      exp_nonpos_no_overflow dbl_overflow_gt_one
      exp_unit_no_underflow dbl_underflow_lt_one)

lemma example_run_pinned:
  "mhMCMC cycle_rng () () () sq_cost [0, 5] [1, 0] 2 3 = Inr ([[0, 5], [-1, 5], [0, 5]], 6)"
  by (simp add: mhMCMC_def mh_step_def draw_dp_def cycle_normal cycle_uniform sq_cost_def vadd_def
      mh_loop_numeral exp_nonpos_no_overflow dbl_overflow_gt_one
      exp_unit_no_underflow dbl_underflow_lt_one)

lemma example_run_negative:
  "mhMCMC cycle_rng () () () sq_cost [0, 5] [1, -2] 2 3 = Inr ([[0, 5], [-1, 5], [0, 5]], 6)"
  by (simp add: mhMCMC_def mh_step_def draw_dp_def cycle_normal cycle_uniform sq_cost_def vadd_def
      mh_loop_numeral exp_nonpos_no_overflow dbl_overflow_gt_one
      exp_unit_no_underflow dbl_underflow_lt_one)

section \<open>Properties of the chain\<close>

text \<open>
  C1. For valid inputs (\<open>initparams\<close> and \<open>stepsize\<close> of the same length, at least 1, and
  \<open>nsteps \<ge> 0\<close>) the run raises nothing and returns a chain of exactly \<open>nsteps + 1\<close>
  points whose point at index 0 is \<open>initparams\<close> itself, whatever its cost; with
  \<open>nsteps = 0\<close> the chain is \<open>[initparams]\<close> and no random number is consumed.
\<close>

theorem mhMCMC_length_first:
  assumes "length stepsize = length initparams" and "1 \<le> length initparams" and "0 \<le> nsteps"
  shows "\<exists>chain g'. mhMCMC R xi yi err chi2func initparams stepsize nsteps g = Inr (chain, g')
           \<and> int (length chain) = nsteps + 1 \<and> chain ! 0 = initparams
           \<and> (nsteps = 0 \<longrightarrow> chain = [initparams] \<and> g' = g)"
proof -
  let ?I = "\<lambda>p. length p = length initparams"
  have step: "\<And>p g. ?I p \<Longrightarrow> \<exists>p' g'. mh_step R xi yi err chi2func stepsize p g = Inr (p', g') \<and> ?I p'"
    using assms(1) by (intro mh_step_length) simp_all
  from mhMCMC_invariant[where I = ?I, OF step, of initparams nsteps g] obtain chain g' where
    c: "mhMCMC R xi yi err chi2func initparams stepsize nsteps g = Inr (chain, g')"
       "length chain = nat nsteps + 1" "chain ! 0 = initparams" by auto
  have "nsteps = 0 \<longrightarrow> chain = [initparams] \<and> g' = g"
    using c(1) by (auto simp: mhMCMC_def)
  moreover have "int (length chain) = nsteps + 1" using c(2) assms(3) by simp
  ultimately show ?thesis using c by blast
qed

theorem mhMCMC_length_first_witness:
  "length [1::real] = length [0::real] \<and> 1 \<le> length [0::real] \<and> (0::int) \<le> 2 \<and>
   (\<exists>chain g'. mhMCMC cycle_rng () () () sq_cost [0] [1] 2 3 = Inr (chain, g')
           \<and> int (length chain) = 2 + 1 \<and> chain ! 0 = [0]
           \<and> ((2::int) = 0 \<longrightarrow> chain = [[0]] \<and> g' = 3))"
  using mhMCMC_length_first[of "[1]" "[0]" 2 cycle_rng "()" "()" "()" sq_cost 3] by simp



text \<open>
  C3. On valid inputs the run returns a chain in which, for every index \<open>k\<close> from 1 to
  \<open>nsteps\<close>, the point \<open>chain[k]\<close> is \<open>chain[k-1]\<close> or \<open>chain[k-1] + dp\<close>, where \<open>dp\<close>
  is the one offset vector drawn at step \<open>k\<close>: the draw made at the point \<open>chain[k-1]\<close>
  from the generator state \<open>g'\<close> in which the first \<open>k - 1\<close> steps end (the run of
  \<open>k - 1\<close> steps returns the first \<open>k\<close> points of the chain and \<open>g'\<close>).
\<close>

theorem chain_successor:
  assumes len: "length stepsize = length initparams"
  shows "\<exists>chain g_end. mhMCMC R xi yi err chi2func initparams stepsize nsteps g = Inr (chain, g_end)
     \<and> (\<forall>k. 1 \<le> k \<and> k \<le> nat nsteps \<longrightarrow>
          (\<exists>g' dp g1. mhMCMC R xi yi err chi2func initparams stepsize (int k - 1) g
                         = Inr (take k chain, g')
             \<and> draw_dp R stepsize (chain ! (k - 1)) g' = Inr (dp, g1)
             \<and> (chain ! k = chain ! (k - 1) \<or> chain ! k = vadd (chain ! (k - 1)) dp)))"
proof -
  from len have "length initparams \<le> length stepsize" by simp
  from mhMCMC_total[OF this, of R xi yi err chi2func nsteps g] obtain chain g_end where
    c: "mhMCMC R xi yi err chi2func initparams stepsize nsteps g = Inr (chain, g_end)"
    by blast
  then have loop: "mh_loop R xi yi err chi2func stepsize (nat nsteps) initparams [initparams] g
      = Inr (chain, g_end)"
    by (simp add: mhMCMC_def)
  have "\<exists>g' dp g1. mhMCMC R xi yi err chi2func initparams stepsize (int k - 1) g
                         = Inr (take k chain, g')
             \<and> draw_dp R stepsize (chain ! (k - 1)) g' = Inr (dp, g1)
             \<and> (chain ! k = chain ! (k - 1) \<or> chain ! k = vadd (chain ! (k - 1)) dp)"
    if k: "1 \<le> k \<and> k \<le> nat nsteps" for k
  proof -
    from k have b: "length [initparams] \<le> k" "k < length [initparams] + nat nsteps" by simp_all
    have ne: "[initparams] \<noteq> []" "last [initparams] = initparams" by simp_all
    from mh_loop_successor[OF loop ne b]
    have "\<exists>g' dp g1. mh_loop R xi yi err chi2func stepsize (k - 1) initparams [initparams] g
                    = Inr (take k chain, g')
        \<and> draw_dp R stepsize (chain ! (k - 1)) g' = Inr (dp, g1)
        \<and> (chain ! k = chain ! (k - 1) \<or> chain ! k = vadd (chain ! (k - 1)) dp)"
      by simp
    moreover from k have "nat (int k - 1) = k - 1" by simp
    ultimately show ?thesis by (simp add: mhMCMC_def)
  qed
  with c show ?thesis by blast
qed

theorem chain_successor_witness:
  "length [1 :: real] = length [0 :: real]
   \<and> mhMCMC cycle_rng () () () sq_cost [0] [1] 2 3 = Inr ([[0], [-1], [0]], 6)
   \<and> (1 :: nat) \<le> 2 \<and> (2 :: nat) \<le> nat 2
   \<and> (\<exists>g' dp g1. mhMCMC cycle_rng () () () sq_cost [0] [1] (int 2 - 1) 3
                         = Inr (take 2 [[0], [-1], [0]], g')
             \<and> draw_dp cycle_rng [1] ([[0], [-1], [0 :: real]] ! (2 - 1)) g' = Inr (dp, g1)
             \<and> ([[0], [-1], [0 :: real]] ! 2 = [[0], [-1], [0 :: real]] ! (2 - 1)
                \<or> [[0], [-1], [0 :: real]] ! 2 = vadd ([[0], [-1], [0 :: real]] ! (2 - 1)) dp))"
proof -
  have l: "length [1 :: real] = length [0 :: real]" by simp
  have b: "(1 :: nat) \<le> 2 \<and> (2 :: nat) \<le> nat 2" by simp
  from chain_successor[OF l, of cycle_rng "()" "()" "()" sq_cost 2 3] obtain chain g_end where
    c: "mhMCMC cycle_rng () () () sq_cost [0] [1] 2 3 = Inr (chain, g_end)"
    and k: "\<forall>k. 1 \<le> k \<and> k \<le> nat 2 \<longrightarrow>
          (\<exists>g' dp g1. mhMCMC cycle_rng () () () sq_cost [0] [1] (int k - 1) 3
                         = Inr (take k chain, g')
             \<and> draw_dp cycle_rng [1] (chain ! (k - 1)) g' = Inr (dp, g1)
             \<and> (chain ! k = chain ! (k - 1) \<or> chain ! k = vadd (chain ! (k - 1)) dp))"
    by blast
  from c have ch: "chain = [[0], [-1], [0]]" by (simp add: example_run)
  from k[THEN spec, of 2, THEN mp, OF b]
  have "\<exists>g' dp g1. mhMCMC cycle_rng () () () sq_cost [0] [1] (int 2 - 1) 3
                         = Inr (take 2 chain, g')
             \<and> draw_dp cycle_rng [1] (chain ! (2 - 1)) g' = Inr (dp, g1)
             \<and> (chain ! 2 = chain ! (2 - 1) \<or> chain ! 2 = vadd (chain ! (2 - 1)) dp)" .
  then have "\<exists>g' dp g1. mhMCMC cycle_rng () () () sq_cost [0] [1] (int 2 - 1) 3
                         = Inr (take 2 [[0], [-1], [0]], g')
             \<and> draw_dp cycle_rng [1] ([[0], [-1], [0 :: real]] ! (2 - 1)) g' = Inr (dp, g1)
             \<and> ([[0], [-1], [0 :: real]] ! 2 = [[0], [-1], [0 :: real]] ! (2 - 1)
                \<or> [[0], [-1], [0 :: real]] ! 2 = vadd ([[0], [-1], [0 :: real]] ! (2 - 1)) dp)"
    unfolding ch .
  moreover have "mhMCMC cycle_rng () () () sq_cost [0] [1] 2 3 = Inr ([[0], [-1], [0]], 6)"
    by (rule example_run)
  ultimately show ?thesis using l b by blast
qed

text \<open>
  C4. If \<open>stepsize[i]\<close> is zero, the run returns a chain whose every point has the value
  \<open>initparams[i]\<close> at index \<open>i\<close>, and the offset \<open>dp[i]\<close> drawn at any step is 0.
\<close>

theorem zero_scale_pins:
  assumes "length stepsize = length initparams" and "i < length initparams"
    and "stepsize ! i = 0"
  shows "(\<exists>chain g'. mhMCMC R xi yi err chi2func initparams stepsize nsteps g = Inr (chain, g')
            \<and> (\<forall>q\<in>set chain. q ! i = initparams ! i))
       \<and> (\<forall>p g dp g1. length p = length initparams \<and> draw_dp R stepsize p g = Inr (dp, g1)
            \<longrightarrow> dp ! i = 0)"
proof (intro conjI allI impI)
  from assms have "length initparams \<le> length stepsize" "stepsize ! i \<le> 0" by simp_all
  from mhMCMC_pinned[OF this(1) assms(2) this(2), of R xi yi err chi2func nsteps g]
  show "\<exists>chain g'. mhMCMC R xi yi err chi2func initparams stepsize nsteps g = Inr (chain, g')
            \<and> (\<forall>q\<in>set chain. q ! i = initparams ! i)" by blast
next
  fix p g dp g1
  assume a: "length p = length initparams \<and> draw_dp R stepsize p g = Inr (dp, g1)"
  then have d: "draw_dp R stepsize p g = Inr (dp, g1)" by simp
  from a assms have "length p \<le> length stepsize" "i < length p" "stepsize ! i \<le> 0" by simp_all
  from draw_dp_pinned[OF d this] show "dp ! i = 0" .
qed

theorem zero_scale_pins_witness:
  "length [1, 0 :: real] = length [0, 5 :: real] \<and> (1::nat) < length [0, 5 :: real]
   \<and> [1, 0 :: real] ! 1 = 0
   \<and> mhMCMC cycle_rng () () () sq_cost [0, 5] [1, 0] 2 3 = Inr ([[0, 5], [-1, 5], [0, 5]], 6)
   \<and> list_all (\<lambda>q. q ! 1 = [0, 5 :: real] ! 1) [[0, 5], [-1, 5], [0, 5]]"
proof -
  have h: "length [1, 0 :: real] = length [0, 5 :: real]" "(1::nat) < length [0, 5 :: real]"
    "[1, 0 :: real] ! 1 = 0" by simp_all
  from zero_scale_pins[OF h, of cycle_rng "()" "()" "()" sq_cost 2 3]
  have "list_all (\<lambda>q. q ! 1 = [0, 5 :: real] ! 1) [[0, 5], [-1, 5], [0, 5]]"
    by (simp add: example_run_pinned)
  with h show ?thesis by (simp add: example_run_pinned)
qed

text \<open>
  C5. Let the uniform draws from \<open>[0, 1)\<close> be non-negative. At a step where the proposal
  costs \<open>+inf\<close> and the current point has a finite cost, \<open>r\<close> is \<open>0\<close>, the test \<open>r > u\<close>
  fails and the walker stays at \<open>p\<close>. Hence a run that starts outside the region of
  cost \<open>+inf\<close> never enters it: no point of the chain has cost \<open>+inf\<close>.
\<close>

theorem infinite_cost_rejected:
  assumes u: "\<forall>g. 0 \<le> fst (uniform R 0 1 g)"
  shows "(\<forall>p g dp g1 c. draw_dp R stepsize p g = Inr (dp, g1)
             \<and> chi2func (vadd p dp) xi yi err = PInf \<and> chi2func p xi yi err = Fin c
           \<longrightarrow> math_exp (fl_div2 (fl_sub (Fin c) PInf)) = Inr (Fin 0)
             \<and> \<not> fl_less (Fin (fst (uniform R 0 1 g1))) (Fin 0)
             \<and> mh_step R xi yi err chi2func stepsize p g = Inr (p, snd (uniform R 0 1 g1)))
       \<and> (length initparams \<le> length stepsize \<and> chi2func initparams xi yi err \<noteq> PInf
           \<longrightarrow> (\<exists>chain g'. mhMCMC R xi yi err chi2func initparams stepsize nsteps g = Inr (chain, g')
                  \<and> (\<forall>q\<in>set chain. chi2func q xi yi err \<noteq> PInf)))"
proof (intro conjI allI impI)
  fix p g dp g1 c
  assume a: "draw_dp R stepsize p g = Inr (dp, g1)
             \<and> chi2func (vadd p dp) xi yi err = PInf \<and> chi2func p xi yi err = Fin c"
  show "math_exp (fl_div2 (fl_sub (Fin c) PInf)) = Inr (Fin 0)" by simp
  from u have u1: "0 \<le> fst (uniform R 0 1 g1)" by blast
  then show "\<not> fl_less (Fin (fst (uniform R 0 1 g1))) (Fin 0)" by simp
  from a have d: "draw_dp R stepsize p g = Inr (dp, g1)"
    and i: "chi2func (vadd p dp) xi yi err = PInf"
    and f: "chi2func p xi yi err \<noteq> PInf" by simp_all
  from mh_step_reject_PInf[where chi2func = chi2func and xi = xi and yi = yi and err = err,
      OF d i f u1]
  show "mh_step R xi yi err chi2func stepsize p g = Inr (p, snd (uniform R 0 1 g1))" .
next
  assume a: "length initparams \<le> length stepsize \<and> chi2func initparams xi yi err \<noteq> PInf"
  let ?I = "\<lambda>p. length p = length initparams \<and> chi2func p xi yi err \<noteq> PInf"
  have step: "\<And>p g. ?I p \<Longrightarrow>
      \<exists>p' g'. mh_step R xi yi err chi2func stepsize p g = Inr (p', g') \<and> ?I p'"
  proof -
    fix p g assume i: "?I p"
    with a have "length p \<le> length stepsize" by simp
    from mh_step_keeps_finite[OF this _ u, of chi2func xi yi err g] i
    show "\<exists>p' g'. mh_step R xi yi err chi2func stepsize p g = Inr (p', g') \<and> ?I p'" by auto
  qed
  from a have init: "?I initparams" by simp
  from mhMCMC_invariant[where I = ?I, OF step init, of nsteps g]
  show "\<exists>chain g'. mhMCMC R xi yi err chi2func initparams stepsize nsteps g = Inr (chain, g')
                  \<and> (\<forall>q\<in>set chain. chi2func q xi yi err \<noteq> PInf)"
    by auto
qed

theorem infinite_cost_rejected_witness:
  "(\<forall>g. 0 \<le> fst (uniform cycle_rng 0 1 g))
   \<and> draw_dp cycle_rng [1] [0] 3 = Inr ([-1], 4)
   \<and> only_at [0] (vadd [0] [-1]) () () () = PInf \<and> only_at [0] [0] () () () = Fin 0
   \<and> mh_step cycle_rng () () () (only_at [0]) [1] [0] 3 = Inr ([0], 5)
   \<and> length [0::real] \<le> length [1::real]
   \<and> (\<exists>chain g'. mhMCMC cycle_rng () () () (only_at [0]) [0] [1] 2 3 = Inr (chain, g')
          \<and> (\<forall>q\<in>set chain. only_at [0] q () () () \<noteq> PInf))"
proof -
  have d: "draw_dp cycle_rng [1] [0] 3 = Inr ([-1], 4)" by (simp add: draw_dp_cycle_1)
  have c': "only_at [0] (vadd [0] [-1]) () () () = PInf" by (simp add: only_at_def vadd_def)
  have c: "only_at [0] [0] () () () = Fin 0" by (simp add: only_at_def)
  note t = infinite_cost_rejected[OF cycle_uniform_nonneg, where stepsize = "[1]"
      and chi2func = "only_at [0]" and xi = "()" and yi = "()" and err = "()"
      and initparams = "[0]" and nsteps = 2 and g = 3]
  from t d c c' have "mh_step cycle_rng () () () (only_at [0]) [1] [0] 3
      = Inr ([0], snd (uniform cycle_rng 0 1 4))"
    by blast
  then have s: "mh_step cycle_rng () () () (only_at [0]) [1] [0] 3 = Inr ([0], 5)"
    by (simp add: cycle_uniform)
  from t c have "\<exists>chain g'. mhMCMC cycle_rng () () () (only_at [0]) [0] [1] 2 3 = Inr (chain, g')
          \<and> (\<forall>q\<in>set chain. only_at [0] q () () () \<noteq> PInf)"
    by simp
  with d c c' s cycle_uniform_nonneg show ?thesis by simp
qed

text \<open>
  C6. If the cost is \<open>+inf\<close> at every point but \<open>initparams\<close>, where it is finite, and
  uniform draws from \<open>[0, 1)\<close> are non-negative, then for every \<open>nsteps\<close> the chain is
  \<open>initparams\<close> repeated \<open>nsteps + 1\<close> times.
\<close>

theorem rejection_dominance:
  assumes len: "length stepsize = length initparams"
    and forb: "\<forall>q. q \<noteq> initparams \<longrightarrow> chi2func q xi yi err = PInf"
    and fin: "chi2func initparams xi yi err = Fin c"
    and u: "\<forall>g. 0 \<le> fst (uniform R 0 1 g)"
  shows "\<exists>g'. mhMCMC R xi yi err chi2func initparams stepsize nsteps g =
           Inr (replicate (nat nsteps + 1) initparams, g')"
proof -
  let ?I = "\<lambda>p. p = initparams"
  from len have l: "length initparams \<le> length stepsize" by simp
  have step: "\<And>p g. ?I p \<Longrightarrow>
      \<exists>p' g'. mh_step R xi yi err chi2func stepsize p g = Inr (p', g') \<and> ?I p'"
    using mh_step_stays_at_only_point[where chi2func = chi2func and xi = xi and yi = yi
        and err = err, OF l forb fin u] by simp
  from mhMCMC_invariant[where I = ?I and initparams = initparams and nsteps = nsteps and g = g,
      OF step] obtain chain g' where
    c: "mhMCMC R xi yi err chi2func initparams stepsize nsteps g = Inr (chain, g')"
       "length chain = nat nsteps + 1" "\<forall>q\<in>set chain. q = initparams" by auto
  from c(2,3) have "chain = replicate (nat nsteps + 1) initparams"
    by (intro replicate_eqI) simp_all
  with c(1) show ?thesis by blast
qed

theorem rejection_dominance_witness:
  "length [1 :: real] = length [0 :: real]
   \<and> only_at [0] [1] () () () = PInf \<and> only_at [0] [0] () () () = Fin 0
   \<and> (\<forall>g. 0 \<le> fst (uniform cycle_rng 0 1 g))
   \<and> (\<exists>g'. mhMCMC cycle_rng () () () (only_at [0]) [0] [1] 2 3 = Inr ([[0], [0], [0]], g'))"
proof -
  have l: "length [1 :: real] = length [0 :: real]" by simp
  have f: "only_at [0] [0] () () () = Fin 0" by (simp add: only_at_def)
  from rejection_dominance[where chi2func = "only_at [0]" and xi = "()" and yi = "()"
      and err = "()" and nsteps = 2 and g = 3, OF l only_at_forbids f cycle_uniform_nonneg]
  have "\<exists>g'. mhMCMC cycle_rng () () () (only_at [0]) [0] [1] 2 3 = Inr ([[0], [0], [0]], g')"
    by (simp add: numeral_3_eq_3)
  moreover have "only_at [0] [1] () () () = PInf" by (simp add: only_at_def)
  ultimately show ?thesis using l f cycle_uniform_nonneg by blast
qed

text \<open>
  C8, as stated, fails: the walker checks neither the signs nor the lengths before the
  loop. With the negative scale \<open>[-1]\<close> it returns a chain, and so it does with a
  \<open>stepsize\<close> longer than \<open>initparams\<close>.
\<close>

theorem no_input_validation_counterexample:
  "[-1 :: real] ! 0 < 0
   \<and> mhMCMC cycle_rng () () () sq_cost [0] [-1] 1 0 = Inr ([[0], [0]], 1)
   \<and> length [1, 1 :: real] \<noteq> length [0 :: real]
   \<and> mhMCMC cycle_rng () () () sq_cost [0] [1, 1] 1 3 = Inr ([[0], [-1]], 5)"
  by (simp add: example_run_neg example_run_long)

text \<open>
  C8, amended. The walker validates nothing. Whenever \<open>stepsize\<close> is at least as long
  as \<open>initparams\<close> (negative or surplus entries included) it raises no error and returns
  a chain of \<open>nsteps + 1\<close> points. When \<open>stepsize\<close> is shorter and \<open>nsteps \<ge> 1\<close>, the
  read of \<open>stepsize[j]\<close> raises \<open>IndexError\<close> inside the first pass of the loop. With
  \<open>nsteps \<le> 0\<close> the loop body never runs and \<open>[initparams]\<close> is returned.
\<close>

theorem no_input_validation:
  "(length initparams \<le> length stepsize \<longrightarrow>
      (\<exists>chain g'. mhMCMC R xi yi err chi2func initparams stepsize nsteps g = Inr (chain, g')
         \<and> length chain = nat nsteps + 1))
   \<and> (length stepsize < length initparams \<and> 1 \<le> nsteps \<longrightarrow>
        mhMCMC R xi yi err chi2func initparams stepsize nsteps g = Inl IndexError)
   \<and> (nsteps \<le> 0 \<longrightarrow>
        mhMCMC R xi yi err chi2func initparams stepsize nsteps g = Inr ([initparams], g))"
proof (intro conjI impI)
  assume l: "length initparams \<le> length stepsize"
  let ?I = "\<lambda>p. length p = length initparams"
  have step: "\<And>p g. ?I p \<Longrightarrow>
      \<exists>p' g'. mh_step R xi yi err chi2func stepsize p g = Inr (p', g') \<and> ?I p'"
    using l by (intro mh_step_length) simp_all
  from mhMCMC_invariant[where I = ?I, OF step, of initparams nsteps g]
  show "\<exists>chain g'. mhMCMC R xi yi err chi2func initparams stepsize nsteps g = Inr (chain, g')
         \<and> length chain = nat nsteps + 1" by auto
next
  assume "length stepsize < length initparams \<and> 1 \<le> nsteps"
  then show "mhMCMC R xi yi err chi2func initparams stepsize nsteps g = Inl IndexError"
    by (simp add: mhMCMC_IndexError)
next
  assume "nsteps \<le> 0"
  then show "mhMCMC R xi yi err chi2func initparams stepsize nsteps g = Inr ([initparams], g)"
    by (rule mhMCMC_no_steps)
qed

theorem no_input_validation_witness:
  "length [0 :: real] \<le> length [-1, 1 :: real]
   \<and> (\<exists>chain g'. mhMCMC cycle_rng () () () sq_cost [0] [-1, 1] 2 0 = Inr (chain, g')
         \<and> length chain = 3)
   \<and> length [1 :: real] < length [0, 0 :: real] \<and> (1 :: int) \<le> 1
   \<and> mhMCMC cycle_rng () () () sq_cost [0, 0] [1] 1 2 = Inl IndexError
   \<and> (0 :: int) \<le> 0
   \<and> mhMCMC cycle_rng () () () sq_cost [0, 0] [1] 0 2 = Inr ([[0, 0]], 2)"
  using no_input_validation[of "[0]" "[-1, 1]" cycle_rng "()" "()" "()" sq_cost 2 0]
    no_input_validation[of "[0, 0]" "[1]" cycle_rng "()" "()" "()" sq_cost 1 2]
    no_input_validation[of "[0, 0]" "[1]" cycle_rng "()" "()" "()" sq_cost 0 2]
  by simp

text \<open>
  C9. If \<open>stepsize[i]\<close> is negative (on inputs of equal lengths), the run raises no error,
  every point of the chain has the value \<open>initparams[i]\<close> at index \<open>i\<close>, the offset
  \<open>dp[i]\<close> drawn at any step is 0, and the whole result (chain, final generator state or
  error) is the one obtained with \<open>stepsize[i]\<close> set to zero.
\<close>

theorem negative_scale_as_zero:
  assumes "length stepsize = length initparams" and "i < length initparams"
    and "stepsize ! i < 0"
  shows "(\<exists>chain g'. mhMCMC R xi yi err chi2func initparams stepsize nsteps g = Inr (chain, g')
            \<and> (\<forall>q\<in>set chain. q ! i = initparams ! i))
       \<and> (\<forall>p g dp g1. length p = length initparams \<and> draw_dp R stepsize p g = Inr (dp, g1)
            \<longrightarrow> dp ! i = 0)
       \<and> mhMCMC R xi yi err chi2func initparams stepsize nsteps g =
           mhMCMC R xi yi err chi2func initparams (stepsize[i := 0]) nsteps g"
proof (intro conjI allI impI)
  from assms have "length initparams \<le> length stepsize" "stepsize ! i \<le> 0" by simp_all
  from mhMCMC_pinned[OF this(1) assms(2) this(2), of R xi yi err chi2func nsteps g]
  show "\<exists>chain g'. mhMCMC R xi yi err chi2func initparams stepsize nsteps g = Inr (chain, g')
            \<and> (\<forall>q\<in>set chain. q ! i = initparams ! i)" by blast
next
  fix p g dp g1
  assume a: "length p = length initparams \<and> draw_dp R stepsize p g = Inr (dp, g1)"
  then have d: "draw_dp R stepsize p g = Inr (dp, g1)" by simp
  from a assms have "length p \<le> length stepsize" "i < length p" "stepsize ! i \<le> 0" by simp_all
  from draw_dp_pinned[OF d this] show "dp ! i = 0" .
next
  from assms(3) have "stepsize ! i \<le> 0" by simp
  then show "mhMCMC R xi yi err chi2func initparams stepsize nsteps g =
           mhMCMC R xi yi err chi2func initparams (stepsize[i := 0]) nsteps g"
    by (simp add: mhMCMC_def mh_loop_clip)
qed

theorem negative_scale_as_zero_witness:
  "length [1, -2 :: real] = length [0, 5 :: real] \<and> (1::nat) < length [0, 5 :: real]
   \<and> [1, -2 :: real] ! 1 < 0
   \<and> mhMCMC cycle_rng () () () sq_cost [0, 5] [1, -2] 2 3 = Inr ([[0, 5], [-1, 5], [0, 5]], 6)
   \<and> list_all (\<lambda>q. q ! 1 = [0, 5 :: real] ! 1) [[0, 5], [-1, 5], [0, 5]]
   \<and> mhMCMC cycle_rng () () () sq_cost [0, 5] [1, 0] 2 3 = Inr ([[0, 5], [-1, 5], [0, 5]], 6)"
proof -
  have h: "length [1, -2 :: real] = length [0, 5 :: real]" "(1::nat) < length [0, 5 :: real]"
    "[1, -2 :: real] ! 1 < 0" by simp_all
  note t = negative_scale_as_zero[OF h, of cycle_rng "()" "()" "()" sq_cost 2 3]
  from t have a: "list_all (\<lambda>q. q ! 1 = [0, 5 :: real] ! 1) [[0, 5], [-1, 5], [0, 5]]"
    by (simp add: example_run_negative)
  from t have b: "mhMCMC cycle_rng () () () sq_cost [0, 5] [1, 0] 2 3
      = Inr ([[0, 5], [-1, 5], [0, 5]], 6)"
    by (simp add: example_run_negative)
  from h a b show ?thesis by (simp add: example_run_negative)
qed

text \<open>
  C10. At a step where the proposal and the current point have the same finite cost, the
  strict comparison fails, \<open>r = exp(0) = 1\<close>, and since the uniform draw \<open>u\<close> is below 1
  the test \<open>r > u\<close> succeeds: the walker moves to \<open>p + dp\<close>.
\<close>

theorem equal_cost_accepted:
  assumes draw: "draw_dp R stepsize p g = Inr (dp, g1)"
    and c': "chi2func (vadd p dp) xi yi err = Fin c"
    and c: "chi2func p xi yi err = Fin c"
    and unif: "uniform R 0 1 g1 = (u, g2)"
    and u: "u < 1"
  shows "\<not> fl_less (Fin c) (Fin c)
       \<and> math_exp (fl_div2 (fl_sub (Fin c) (Fin c))) = Inr (Fin 1)
       \<and> fl_less (Fin u) (Fin 1)
       \<and> mh_step R xi yi err chi2func stepsize p g = Inr (vadd p dp, g2)"
proof -
  have r: "math_exp (fl_div2 (fl_sub (Fin c) (Fin c))) = Inr (Fin 1)"
    by (simp add: dbl_overflow_gt_one dbl_underflow_lt_one)
  have "mh_step R xi yi err chi2func stepsize p g =
          Inr (if fl_less (Fin u) (Fin 1) then vadd p dp else p, g2)"
    using mh_step_ratio_test[where chi2func = chi2func and xi = xi and yi = yi and err = err
        and r = "Fin 1", OF draw _ _ unif] c c' r by simp
  with r u show ?thesis by simp
qed

theorem equal_cost_accepted_witness:
  "draw_dp cycle_rng [1] [0] 2 = Inr ([1], 3) \<and> flat_cost (vadd [0] [1]) () () () = Fin 7
   \<and> flat_cost [0] () () () = Fin 7 \<and> uniform cycle_rng 0 1 3 = (3 / 4, 4) \<and> (3 / 4 :: real) < 1
   \<and> mh_step cycle_rng () () () flat_cost [1] [0] 2 = Inr ([1], 4)"
proof -
  have d: "draw_dp cycle_rng [1] [0] 2 = Inr ([1], 3)" by (simp add: draw_dp_cycle_1)
  have c': "flat_cost (vadd [0] [1]) () () () = Fin 7" by (simp add: flat_cost_def)
  have c: "flat_cost [0] () () () = Fin 7" by (simp add: flat_cost_def)
  have v: "uniform cycle_rng 0 1 3 = (3 / 4, 4)" by (simp add: cycle_uniform)
  have u: "(3 / 4 :: real) < 1" by simp
  from equal_cost_accepted[where R = cycle_rng and stepsize = "[1]" and p = "[0]" and g = 2
      and dp = "[1]" and ?g1.0 = 3 and chi2func = flat_cost and xi = "()" and yi = "()"
      and err = "()" and c = 7 and u = "3 / 4" and ?g2.0 = 4, OF d c' c v u]
  have "mh_step cycle_rng () () () flat_cost [1] [0] 2 = Inr (vadd [0] [1], 4)" by simp
  then have "mh_step cycle_rng () () () flat_cost [1] [0] 2 = Inr ([1], 4)"
    by (simp add: vadd_def)
  with d c' c v u show ?thesis by simp
qed

end
